theory Spec2Isabelle
  imports Main
begin

section \<open>JavaScript values, the heap and completions\<close>

text \<open>
  The library \<^verbatim>\<open>scratch.js\<close> builds \<^verbatim>\<open>while\<close>, \<^verbatim>\<open>for\<close>, \<^verbatim>\<open>forEach\<close>,
  \<^verbatim>\<open>reduce\<close>, \<^verbatim>\<open>map\<close>, \<^verbatim>\<open>filter\<close>, \<^verbatim>\<open>pluck\<close> and \<^verbatim>\<open>compact\<close> on top of
  one another. Arrays and objects are reference values, so they live in an explicit
  heap: an address is an index into the list of allocated objects and allocation
  appends to that list. Numbers are modelled as integers (no \<^verbatim>\<open>NaN\<close>, no fractions).
\<close>

type_synonym addr = nat

datatype jsval = Undefined | Null | Bool bool | Num int | Str string | Ref addr

datatype jsobj = Arr "jsval list" | Rec "(string \<times> jsval) list"

text \<open>
  A \<^verbatim>\<open>throw\<close> carries either an arbitrary value (the source throws a string) or
  the \<^verbatim>\<open>TypeError\<close> object the runtime itself raises, e.g. on calling a non-function
  or reading a property of \<^verbatim>\<open>null\<close>. A call completes normally with a value or
  abruptly with a throw; the state reached so far survives a throw.
\<close>

datatype thrown = ThrownValue jsval | TypeErrorObject

datatype completion = Normal jsval | Throw thrown

text \<open>Whether a completion is a normal return, and the value it returned.\<close>

fun returned :: "completion \<Rightarrow> bool" where
  "returned (Normal v) = True"
| "returned (Throw e) = False"

fun value_of :: "completion \<Rightarrow> jsval" where
  "value_of (Normal v) = v"
| "value_of (Throw e) = Undefined"

text \<open>An argument passed where a function is expected: a callable, or any other value.\<close>

datatype 'f arg = Fn 'f | NonFn jsval

type_synonym 's thunk = "'s \<Rightarrow> completion \<times> 's"

type_synonym 'u world = "jsobj list \<times> 'u"

type_synonym 'u callback = "jsval \<Rightarrow> 'u world \<Rightarrow> completion \<times> 'u world"

type_synonym 'u callback2 = "jsval \<Rightarrow> jsval \<Rightarrow> 'u world \<Rightarrow> completion \<times> 'u world"

text \<open>\<^verbatim>\<open>ToBoolean\<close>, as used by \<^verbatim>\<open>!condition()\<close> and \<^verbatim>\<open>if (predicate(element))\<close>.\<close>

fun truthy :: "jsval \<Rightarrow> bool" where
  "truthy Undefined = False"
| "truthy Null = False"
| "truthy (Bool b) = b"
| "truthy (Num n) = (n \<noteq> 0)"
| "truthy (Str s) = (s \<noteq> [])"
| "truthy (Ref a) = True"

text \<open>Calling a value: a non-function makes the runtime throw a \<^verbatim>\<open>TypeError\<close>.\<close>

fun call0 :: "'s thunk arg \<Rightarrow> 's thunk" where
  "call0 (Fn f) s = f s"
| "call0 (NonFn v) s = (Throw TypeErrorObject, s)"

fun call1 :: "'u callback arg \<Rightarrow> 'u callback" where
  "call1 (Fn f) x w = f x w"
| "call1 (NonFn v) x w = (Throw TypeErrorObject, w)"

fun call2 :: "'u callback2 arg \<Rightarrow> 'u callback2" where
  "call2 (Fn f) m x w = f m x w"
| "call2 (NonFn v) m x w = (Throw TypeErrorObject, w)"

text \<open>
  The array stored at an address. Anything that is not an array (a record, or no
  object at all) has no \<^verbatim>\<open>length\<close> here and so behaves like an empty sequence;
  array-like records are not modelled.
\<close>

definition arr_of :: "jsobj list \<Rightarrow> addr \<Rightarrow> jsval list" where
  "arr_of h a = (if a < length h then (case h ! a of Arr xs \<Rightarrow> xs | Rec fs \<Rightarrow> []) else [])"

text \<open>\<^verbatim>\<open>array[i]\<close>: reading past the end, or at an index that is not a number, gives \<^verbatim>\<open>undefined\<close>.\<close>

definition elem_at :: "jsobj list \<Rightarrow> addr \<Rightarrow> nat option \<Rightarrow> jsval" where
  "elem_at h a i =
     (case i of None \<Rightarrow> Undefined
      | Some k \<Rightarrow> if k < length (arr_of h a) then arr_of h a ! k else Undefined)"

section \<open>The functions of \<^verbatim>\<open>scratch\<close>\<close>

subsection \<open>\<^verbatim>\<open>while\<close>\<close>

text \<open>
  The inner named function \<^verbatim>\<open>loop\<close> of \<^verbatim>\<open>while\<close>. It may recurse forever, so
  it is a partial function: \<open>None\<close> is a run that never returns. The depth of the
  call stack is not bounded here: the host's stack exhaustion is outside the model.
\<close>

partial_function (option) loop ::
  "'s thunk \<Rightarrow> 's thunk arg \<Rightarrow> 's \<Rightarrow> (completion \<times> 's) option" where
  "loop condition fn s =
     (case condition s of
        (Throw e, s1) \<Rightarrow> Some (Throw e, s1)
      | (Normal v, s1) \<Rightarrow>
          if \<not> truthy v then Some (Normal Undefined, s1)
          else (case call0 fn s1 of
                  (Throw e, s2) \<Rightarrow> Some (Throw e, s2)
                | (Normal r, s2) \<Rightarrow> loop condition fn s2))"

definition reminder :: string where
  "reminder = ''Remember, you need to pass a FUNCTION to scratch.while!''"

definition scratch_while ::
  "'s thunk arg \<Rightarrow> 's thunk arg \<Rightarrow> 's \<Rightarrow> (completion \<times> 's) option" where
  "scratch_while condition fn s =
     (case condition of
        NonFn v \<Rightarrow> Some (Throw (ThrownValue (Str reminder)), s)
      | Fn c \<Rightarrow>
          (case loop c fn s of
             None \<Rightarrow> None
           | Some (Throw e, s') \<Rightarrow> Some (Throw e, s')
           | Some (Normal r, s') \<Rightarrow> Some (Normal Undefined, s')))"

subsection \<open>\<^verbatim>\<open>for\<close>\<close>

text \<open>The anonymous body handed to \<^verbatim>\<open>while\<close>: \<^verbatim>\<open>fn(); update();\<close>.\<close>

definition for_body :: "'s thunk arg \<Rightarrow> 's thunk arg \<Rightarrow> 's thunk" where
  "for_body fn update s =
     (case call0 fn s of
        (Throw e, s1) \<Rightarrow> (Throw e, s1)
      | (Normal r, s1) \<Rightarrow>
          (case call0 update s1 of
             (Throw e, s2) \<Rightarrow> (Throw e, s2)
           | (Normal r', s2) \<Rightarrow> (Normal Undefined, s2)))"

definition scratch_for ::
  "'s thunk arg \<Rightarrow> 's thunk arg \<Rightarrow> 's thunk arg \<Rightarrow> 's thunk arg \<Rightarrow> 's
     \<Rightarrow> (completion \<times> 's) option" where
  "scratch_for init condition update fn s =
     (case call0 init s of
        (Throw e, s1) \<Rightarrow> Some (Throw e, s1)
      | (Normal r, s1) \<Rightarrow>
          (case scratch_while condition (Fn (for_body fn update)) s1 of
             None \<Rightarrow> None
           | Some (Throw e, s2) \<Rightarrow> Some (Throw e, s2)
           | Some (Normal r', s2) \<Rightarrow> Some (Normal Undefined, s2)))"

subsection \<open>\<^verbatim>\<open>forEach\<close>\<close>

text \<open>
  The local \<^verbatim>\<open>var i\<close> is captured by the four closures and by nothing else, so it
  is a component of the loop state next to the world the callback sees. It is
  \<^verbatim>\<open>undefined\<close> (\<open>None\<close>) until \<^verbatim>\<open>init\<close> runs. The array is re-read from the heap
  at every use, as \<^verbatim>\<open>array.length\<close> and \<^verbatim>\<open>array[i]\<close> are in the source.
\<close>

definition forEach_init :: "(nat option \<times> 'u world) thunk" where
  "forEach_init = (\<lambda>(i, w). (Normal Undefined, (Some 0, w)))"

definition forEach_condition :: "addr \<Rightarrow> (nat option \<times> 'u world) thunk" where
  "forEach_condition array =
     (\<lambda>(i, w). (Normal (Bool (case i of None \<Rightarrow> False
                                 | Some k \<Rightarrow> k < length (arr_of (fst w) array))), (i, w)))"

definition forEach_update :: "(nat option \<times> 'u world) thunk" where
  "forEach_update = (\<lambda>(i, w). (Normal Undefined, (map_option Suc i, w)))"

definition forEach_fn :: "addr \<Rightarrow> 'u callback arg \<Rightarrow> (nat option \<times> 'u world) thunk" where
  "forEach_fn array fn =
     (\<lambda>(i, w). case call1 fn (elem_at (fst w) array i) w of
                 (Throw e, w') \<Rightarrow> (Throw e, (i, w'))
               | (Normal r, w') \<Rightarrow> (Normal Undefined, (i, w')))"

definition scratch_forEach ::
  "addr \<Rightarrow> 'u callback arg \<Rightarrow> 'u world \<Rightarrow> (completion \<times> 'u world) option" where
  "scratch_forEach array fn w =
     (case scratch_for (Fn forEach_init) (Fn (forEach_condition array))
             (Fn forEach_update) (Fn (forEach_fn array fn)) (None, w) of
        None \<Rightarrow> None
      | Some (Throw e, (i, w')) \<Rightarrow> Some (Throw e, w')
      | Some (Normal r, (i, w')) \<Rightarrow> Some (Normal Undefined, w'))"

subsection \<open>\<^verbatim>\<open>reduce\<close>\<close>

text \<open>
  The parameter \<^verbatim>\<open>memo\<close> is a variable of \<^verbatim>\<open>reduce\<close> that only its inner
  function assigns; it travels with the world through \<^verbatim>\<open>forEach\<close>.
  The inner function is \<^verbatim>\<open>function(element) { memo = aggregator(memo, element); }\<close>.
\<close>

definition reduce_fn :: "'u callback2 arg \<Rightarrow> (jsval \<times> 'u) callback" where
  "reduce_fn aggregator element =
     (\<lambda>(h, (memo, u)). case call2 aggregator memo element (h, u) of
                           (Throw e, (h', u')) \<Rightarrow> (Throw e, (h', (memo, u')))
                         | (Normal v, (h', u')) \<Rightarrow> (Normal Undefined, (h', (v, u'))))"

definition scratch_reduce ::
  "addr \<Rightarrow> 'u callback2 arg \<Rightarrow> jsval \<Rightarrow> 'u world \<Rightarrow> (completion \<times> 'u world) option" where
  "scratch_reduce array aggregator memo =
     (\<lambda>(h, u). case scratch_forEach array (Fn (reduce_fn aggregator)) (h, (memo, u)) of
                  None \<Rightarrow> None
                | Some (Throw e, (h', (m, u'))) \<Rightarrow> Some (Throw e, (h', u'))
                | Some (Normal r, (h', (m, u'))) \<Rightarrow> Some (Normal m, (h', u')))"

subsection \<open>\<^verbatim>\<open>map\<close> and \<^verbatim>\<open>filter\<close>\<close>

text \<open>
  \<^verbatim>\<open>result.push(v)\<close>: appends in place to the array the reference points to and
  returns the new length; on anything else there is no callable \<^verbatim>\<open>push\<close>.
\<close>

definition push :: "jsval \<Rightarrow> jsval \<Rightarrow> jsobj list \<Rightarrow> completion \<times> jsobj list" where
  "push target v h =
     (case target of
        Ref r \<Rightarrow>
          (if r < length h then
             (case h ! r of
                Arr xs \<Rightarrow> (Normal (Num (int (length xs) + 1)), h[r := Arr (xs @ [v])])
              | Rec fs \<Rightarrow> (Throw TypeErrorObject, h))
           else (Throw TypeErrorObject, h))
      | _ \<Rightarrow> (Throw TypeErrorObject, h))"

definition map_aggregator :: "'u callback arg \<Rightarrow> 'u callback2" where
  "map_aggregator selector result element w =
     (case call1 selector element w of
        (Throw e, w') \<Rightarrow> (Throw e, w')
      | (Normal v, (h', u')) \<Rightarrow>
          (case push result v h' of
             (Throw e, h'') \<Rightarrow> (Throw e, (h'', u'))
           | (Normal n, h'') \<Rightarrow> (Normal result, (h'', u'))))"

text \<open>The array literal \<^verbatim>\<open>[]\<close> is allocated when the arguments are evaluated, before \<^verbatim>\<open>reduce\<close> runs.\<close>

definition scratch_map ::
  "addr \<Rightarrow> 'u callback arg \<Rightarrow> 'u world \<Rightarrow> (completion \<times> 'u world) option" where
  "scratch_map array selector =
     (\<lambda>(h, u). scratch_reduce array (Fn (map_aggregator selector)) (Ref (length h)) (h @ [Arr []], u))"

definition filter_aggregator :: "'u callback arg \<Rightarrow> 'u callback2" where
  "filter_aggregator predicate result element w =
     (case call1 predicate element w of
        (Throw e, w') \<Rightarrow> (Throw e, w')
      | (Normal v, (h', u')) \<Rightarrow>
          (if truthy v then
             (case push result element h' of
                (Throw e, h'') \<Rightarrow> (Throw e, (h'', u'))
              | (Normal n, h'') \<Rightarrow> (Normal result, (h'', u')))
           else (Normal result, (h', u'))))"

definition scratch_filter ::
  "addr \<Rightarrow> 'u callback arg \<Rightarrow> 'u world \<Rightarrow> (completion \<times> 'u world) option" where
  "scratch_filter array predicate =
     (\<lambda>(h, u). scratch_reduce array (Fn (filter_aggregator predicate)) (Ref (length h)) (h @ [Arr []], u))"

subsection \<open>\<^verbatim>\<open>pluck\<close> and \<^verbatim>\<open>compact\<close>\<close>

text \<open>
  \<^verbatim>\<open>element[property]\<close>. Reading a property of \<^verbatim>\<open>null\<close> or \<^verbatim>\<open>undefined\<close> throws
  a \<^verbatim>\<open>TypeError\<close>; every other value can be read. The model knows the own data
  properties of records and the \<^verbatim>\<open>length\<close> of arrays and strings; inherited
  properties, getters and the indexed properties of arrays and strings are not
  modelled and read as \<^verbatim>\<open>undefined\<close>.
\<close>

definition get_prop :: "jsobj list \<Rightarrow> jsval \<Rightarrow> string \<Rightarrow> completion" where
  "get_prop h v p =
     (case v of
        Undefined \<Rightarrow> Throw TypeErrorObject
      | Null \<Rightarrow> Throw TypeErrorObject
      | Str s \<Rightarrow> Normal (if p = ''length'' then Num (int (length s)) else Undefined)
      | Ref r \<Rightarrow>
          (if r < length h then
             (case h ! r of
                Rec fs \<Rightarrow> Normal (case map_of fs p of None \<Rightarrow> Undefined | Some x \<Rightarrow> x)
              | Arr xs \<Rightarrow> Normal (if p = ''length'' then Num (int (length xs)) else Undefined))
           else Normal Undefined)
      | _ \<Rightarrow> Normal Undefined)"

definition pluck_selector :: "string \<Rightarrow> 'u callback" where
  "pluck_selector property element = (\<lambda>(h, u). (get_prop h element property, (h, u)))"

definition scratch_pluck ::
  "addr \<Rightarrow> string \<Rightarrow> 'u world \<Rightarrow> (completion \<times> 'u world) option" where
  "scratch_pluck array property = scratch_map array (Fn (pluck_selector property))"

text \<open>\<^verbatim>\<open>element != null\<close>: loose inequality, false exactly for \<^verbatim>\<open>null\<close> and \<^verbatim>\<open>undefined\<close>.\<close>

definition compact_predicate :: "'u callback" where
  "compact_predicate element w = (Normal (Bool (element \<noteq> Null \<and> element \<noteq> Undefined)), w)"

definition scratch_compact :: "addr \<Rightarrow> 'u world \<Rightarrow> (completion \<times> 'u world) option" where
  "scratch_compact array = scratch_filter array (Fn compact_predicate)"


section \<open>What the loops compute\<close>

text \<open>
  Two plain recursions that the loops are compared with. \<open>invoke_each\<close> calls the
  callback on the element at each index of a list of indices, one after the other,
  stopping at the first throw; \<open>fold_left\<close> is the left fold of an aggregator over a
  list of elements, stopping at the first throw.
\<close>

fun invoke_each :: "'u callback arg \<Rightarrow> addr \<Rightarrow> nat list \<Rightarrow> 'u world \<Rightarrow> completion \<times> 'u world" where
  "invoke_each fn a [] w = (Normal Undefined, w)"
| "invoke_each fn a (k # ks) w =
     (case call1 fn (elem_at (fst w) a (Some k)) w of
        (Throw e, w') \<Rightarrow> (Throw e, w')
      | (Normal r, w') \<Rightarrow> invoke_each fn a ks w')"

fun fold_left :: "'u callback2 arg \<Rightarrow> jsval list \<Rightarrow> jsval \<Rightarrow> 'u world \<Rightarrow> completion \<times> 'u world" where
  "fold_left aggregator [] m w = (Normal m, w)"
| "fold_left aggregator (x # xs) m w =
     (case call2 aggregator m x w of
        (Throw e, w') \<Rightarrow> (Throw e, w')
      | (Normal m', w') \<Rightarrow> fold_left aggregator xs m' w')"

text \<open>
  The recursion of \<^verbatim>\<open>loop\<close> under the closures of \<^verbatim>\<open>forEach\<close>, started at index \<open>k\<close>:
  as long as the callback keeps an invariant \<open>I\<close> and the length of the array, the loop
  returns and has called the callback at the indices \<open>k, ..., length - 1\<close>.
\<close>

lemma loop_forEach:
  assumes step: "\<And>w k r w'. I w \<Longrightarrow> k < length (arr_of (fst w) a) \<Longrightarrow>
            call1 fn (arr_of (fst w) a ! k) w = (Normal r, w') \<Longrightarrow>
            I w' \<and> length (arr_of (fst w') a) = length (arr_of (fst w) a)"
  shows "I w \<Longrightarrow> k \<le> length (arr_of (fst w) a) \<Longrightarrow>
    \<exists>i. loop (forEach_condition a) (Fn (for_body (Fn (forEach_fn a fn)) (Fn forEach_update))) (Some k, w)
      = Some (fst (invoke_each fn a [k..<length (arr_of (fst w) a)] w), 
              (i, snd (invoke_each fn a [k..<length (arr_of (fst w) a)] w)))"
proof (induction "length (arr_of (fst w) a) - k" arbitrary: k w)
  case 0
  then have "k = length (arr_of (fst w) a)" by simp
  then show ?case
    by (subst loop.simps) (simp add: forEach_condition_def)
next
  case (Suc d)
  then have lt: "k < length (arr_of (fst w) a)" by simp
  then have upt: "[k..<length (arr_of (fst w) a)] = k # [Suc k..<length (arr_of (fst w) a)]"
    by (simp add: upt_conv_Cons)
  have el: "elem_at (fst w) a (Some k) = arr_of (fst w) a ! k"
    using lt by (simp add: elem_at_def)
  obtain c w' where cw: "call1 fn (arr_of (fst w) a ! k) w = (c, w')"
    by (cases "call1 fn (arr_of (fst w) a ! k) w")
  show ?case
  proof (cases c)
    case (Throw e)
    then show ?thesis using lt cw upt el
      by (subst loop.simps) (simp add: forEach_condition_def for_body_def forEach_fn_def)
  next
    case (Normal r)
    with step[OF Suc(3) lt] cw have I': "I w'"
      and len: "length (arr_of (fst w') a) = length (arr_of (fst w) a)"
      by blast+
    have "Suc k \<le> length (arr_of (fst w') a)" using lt len by simp
    moreover have "d = length (arr_of (fst w') a) - Suc k" using Suc(2) len by simp
    ultimately obtain i where
      "loop (forEach_condition a) (Fn (for_body (Fn (forEach_fn a fn)) (Fn forEach_update))) (Some (Suc k), w')
      = Some (fst (invoke_each fn a [Suc k..<length (arr_of (fst w') a)] w'), 
              (i, snd (invoke_each fn a [Suc k..<length (arr_of (fst w') a)] w')))"
      using Suc(1)[of w' "Suc k"] I' by blast
    then show ?thesis using lt cw upt Normal len el
      by (subst loop.simps) (simp add: forEach_condition_def for_body_def forEach_fn_def forEach_update_def)
  qed
qed

lemma invoke_each_Normal: "fst (invoke_each fn a ks w) = Normal v \<Longrightarrow> v = Undefined"
  by (induction ks arbitrary: w) (auto split: prod.splits completion.splits)

lemma forEach_run:
  assumes I: "I w"
    and step: "\<And>w k r w'. I w \<Longrightarrow> k < length (arr_of (fst w) a) \<Longrightarrow>
            call1 fn (arr_of (fst w) a ! k) w = (Normal r, w') \<Longrightarrow>
            I w' \<and> length (arr_of (fst w') a) = length (arr_of (fst w) a)"
  shows "scratch_forEach a fn w = Some (invoke_each fn a [0..<length (arr_of (fst w) a)] w)"
proof -
  have "\<exists>i. loop (forEach_condition a) (Fn (for_body (Fn (forEach_fn a fn)) (Fn forEach_update))) (Some 0, w)
      = Some (fst (invoke_each fn a [0..<length (arr_of (fst w) a)] w), 
              (i, snd (invoke_each fn a [0..<length (arr_of (fst w) a)] w)))"
  proof (rule loop_forEach[where I = I])
    show "I w" by (rule I)
  qed (use step in blast)+
  then obtain i where "loop (forEach_condition a) (Fn (for_body (Fn (forEach_fn a fn)) (Fn forEach_update))) (Some 0, w)
      = Some (fst (invoke_each fn a [0..<length (arr_of (fst w) a)] w), 
              (i, snd (invoke_each fn a [0..<length (arr_of (fst w) a)] w)))"
    by blast
  moreover have "fst (invoke_each fn a [0..<length (arr_of (fst w) a)] w) = Normal v \<Longrightarrow> v = Undefined" for v
    by (rule invoke_each_Normal)
  ultimately show ?thesis
    by (cases "fst (invoke_each fn a [0..<length (arr_of (fst w) a)] w)")
       (auto simp add: scratch_forEach_def scratch_for_def scratch_while_def forEach_init_def
             prod_eq_iff split: prod.splits)
qed

lemma invoke_each_reduce:
  assumes step: "\<And>m x h u v h' u'. J m (h, u) \<Longrightarrow> arr_of h a = xs \<Longrightarrow> x \<in> set xs \<Longrightarrow>
            call2 agg m x (h, u) = (Normal v, (h', u')) \<Longrightarrow> J v (h', u') \<and> arr_of h' a = xs"
  shows "J m (h, u) \<Longrightarrow> arr_of h a = xs \<Longrightarrow> k \<le> length xs \<Longrightarrow>
    \<exists>m'. invoke_each (Fn (reduce_fn agg)) a [k..<length xs] (h, (m, u)) =
      (case fold_left agg (drop k xs) m (h, u) of
         (Throw e, (h', u')) \<Rightarrow> (Throw e, (h', (m', u')))
       | (Normal v, (h', u')) \<Rightarrow> (Normal Undefined, (h', (v, u'))))"
proof (induction "length xs - k" arbitrary: k m h u)
  case 0
  then show ?case by simp
next
  case (Suc d)
  then have lt: "k < length xs" by simp
  then have upt: "[k..<length xs] = k # [Suc k..<length xs]"
    by (simp add: upt_conv_Cons)
  have dr: "drop k xs = xs ! k # drop (Suc k) xs"
    using lt by (simp add: Cons_nth_drop_Suc)
  have el: "elem_at h a (Some k) = xs ! k"
    using lt Suc.prems by (simp add: elem_at_def)
  obtain c h1 u1 where cw: "call2 agg m (xs ! k) (h, u) = (c, (h1, u1))"
    by (metis surj_pair)
  show ?case
  proof (cases c)
    case (Throw e)
    then show ?thesis using cw upt dr el by (simp add: reduce_fn_def)
  next
    case (Normal v)
    have "xs ! k \<in> set xs" using lt by simp
    with step[OF Suc.prems(1,2)] cw Normal have J': "J v (h1, u1)" and ar: "arr_of h1 a = xs"
      by blast+
    have "d = length xs - Suc k" using Suc(2) by simp
    from Suc(1)[OF this J' ar] lt obtain m' where
      "invoke_each (Fn (reduce_fn agg)) a [Suc k..<length xs] (h1, (v, u1)) =
      (case fold_left agg (drop (Suc k) xs) v (h1, u1) of
         (Throw e, (h', u')) \<Rightarrow> (Throw e, (h', (m', u')))
       | (Normal v, (h', u')) \<Rightarrow> (Normal Undefined, (h', (v, u'))))"
      by auto
    then show ?thesis using cw upt dr el Normal by (auto simp add: reduce_fn_def)
  qed
qed

lemma reduce_run:
  assumes J: "J m (h, u)"
    and step: "\<And>m x h u v h' u'. J m (h, u) \<Longrightarrow> arr_of h a = xs \<Longrightarrow> x \<in> set xs \<Longrightarrow>
            call2 agg m x (h, u) = (Normal v, (h', u')) \<Longrightarrow> J v (h', u') \<and> arr_of h' a = xs"
    and xs: "arr_of h a = xs"
  shows "scratch_reduce a agg m (h, u) = Some (fold_left agg xs m (h, u))"
proof -
  let ?I = "\<lambda>(h, (m, u)). J m (h, u) \<and> arr_of h a = xs"
  have "scratch_forEach a (Fn (reduce_fn agg)) (h, (m, u))
          = Some (invoke_each (Fn (reduce_fn agg)) a [0..<length (arr_of (fst (h, (m, u))) a)] (h, (m, u)))"
  proof (rule forEach_run[where I = ?I])
    show "?I (h, (m, u))" using J xs by simp
  next
    fix w :: "(jsval \<times> 'a) world" and k r w'
    assume Iw: "?I w" and k: "k < length (arr_of (fst w) a)"
      and call: "call1 (Fn (reduce_fn agg)) (arr_of (fst w) a ! k) w = (Normal r, w')"
    obtain h0 m0 u0 where w: "w = (h0, (m0, u0))" by (metis surj_pair)
    obtain c h1 u1 where ag: "call2 agg m0 (xs ! k) (h0, u0) = (c, (h1, u1))" by (metis surj_pair)
    have J0: "J m0 (h0, u0)" and a0: "arr_of h0 a = xs" using Iw w by simp_all
    have mem: "xs ! k \<in> set xs" using k w a0 by simp
    show "?I w' \<and> length (arr_of (fst w') a) = length (arr_of (fst w) a)"
    proof (cases c)
      case (Throw e)
      then show ?thesis using call w ag a0 by (simp add: reduce_fn_def)
    next
      case (Normal v)
      then have "J v (h1, u1) \<and> arr_of h1 a = xs" using step[OF J0 a0 mem] ag by simp
      moreover have "w' = (h1, (v, u1))" using call w ag a0 Normal by (simp add: reduce_fn_def)
      ultimately show ?thesis using w a0 by simp
    qed
  qed
  moreover have "\<exists>m'. invoke_each (Fn (reduce_fn agg)) a [0..<length xs] (h, (m, u)) =
      (case fold_left agg (drop 0 xs) m (h, u) of
         (Throw e, (h', u')) \<Rightarrow> (Throw e, (h', (m', u')))
       | (Normal v, (h', u')) \<Rightarrow> (Normal Undefined, (h', (v, u'))))"
  proof (rule invoke_each_reduce[where J = J])
    show "J m (h, u)" by (rule J)
    show "arr_of h a = xs" by (rule xs)
  qed (use step in blast)+
  ultimately obtain m' where fe: "scratch_forEach a (Fn (reduce_fn agg)) (h, (m, u)) =
      Some (case fold_left agg xs m (h, u) of
         (Throw e, (h', u')) \<Rightarrow> (Throw e, (h', (m', u')))
       | (Normal v, (h', u')) \<Rightarrow> (Normal Undefined, (h', (v, u'))))"
    using xs by auto
  obtain c h' u' where fl: "fold_left agg xs m (h, u) = (c, (h', u'))" by (metis surj_pair)
  show ?thesis
    by (cases c) (simp_all add: scratch_reduce_def fe fl)
qed



section \<open>\<^verbatim>\<open>forEach\<close>: one call per index, in order\<close>

text \<open>
  To observe the calls, a callback \<open>F\<close> is wrapped so that every call appends its
  argument, and the contents of the array at the moment of the call, to a log that
  \<open>F\<close> itself cannot see.
\<close>

definition recording :: "addr \<Rightarrow> 'u callback \<Rightarrow> ('u \<times> (jsval \<times> jsval list) list) callback" where
  "recording a F x =
     (\<lambda>(h, (u, log)). case F x (h, u) of
                          (c, (h', u')) \<Rightarrow> (c, (h', (u', log @ [(x, arr_of h a)]))))"

text \<open>A call of the callback that returns leaves the length of the array at \<open>a\<close> as it was.\<close>

definition keeps_length :: "'u callback \<Rightarrow> addr \<Rightarrow> bool" where
  "keeps_length F a \<longleftrightarrow>
     (\<forall>x w r w'. F x w = (Normal r, w') \<longrightarrow>
        length (arr_of (fst w') a) = length (arr_of (fst w) a))"

text \<open>The callback never throws; the callback never changes the array at \<open>a\<close> at all.\<close>

definition never_throws :: "'u callback \<Rightarrow> bool" where
  "never_throws F \<longleftrightarrow> (\<forall>x w. returned (fst (F x w)))"

definition keeps_elements :: "'u callback \<Rightarrow> addr \<Rightarrow> bool" where
  "keeps_elements F a \<longleftrightarrow> (\<forall>x w. arr_of (fst (snd (F x w))) a = arr_of (fst w) a)"

lemma invoke_each_recording:
  assumes F: "keeps_length F a"
  shows "\<forall>k \<in> set ks. k < length (arr_of h a) \<Longrightarrow>
    \<exists>c h' u' log'.
      invoke_each (Fn (recording a F)) a ks (h, (u, log)) = (c, (h', (u', log @ log'))) \<and>
      invoke_each (Fn F) a ks (h, u) = (c, (h', u')) \<and>
      length log' \<le> length ks \<and>
      (\<forall>j < length log'. fst (log' ! j) = snd (log' ! j) ! (ks ! j) \<and>
                          length (snd (log' ! j)) = length (arr_of h a)) \<and>
      ((c = Normal Undefined \<and> length log' = length ks) \<or> ((\<exists>e. c = Throw e) \<and> \<not> never_throws F)) \<and>
      (keeps_elements F a \<longrightarrow> map fst log' = map (\<lambda>k. arr_of h a ! k) (take (length log') ks))"
proof (induction ks arbitrary: h u log)
  case Nil
  then show ?case by simp
next
  case (Cons k ks)
  have k: "k < length (arr_of h a)" using Cons.prems by simp
  obtain c0 h1 u1 where st: "F (arr_of h a ! k) (h, u) = (c0, (h1, u1))"
    by (metis surj_pair)
  have ke: "keeps_elements F a \<Longrightarrow> arr_of h1 a = arr_of h a"
    unfolding keeps_elements_def using st by (metis fst_conv snd_conv)
  let ?entry = "(arr_of h a ! k, arr_of h a)"
  show ?case
  proof (cases c0)
    case (Throw e)
    have nt: "\<not> never_throws F"
      unfolding never_throws_def using st Throw by (metis fst_conv returned.simps(2))
    have 1: "invoke_each (Fn (recording a F)) a (k # ks) (h, (u, log)) = (Throw e, (h1, (u1, log @ [?entry])))"
      using st k Throw by (simp add: recording_def elem_at_def)
    have 2: "invoke_each (Fn F) a (k # ks) (h, u) = (Throw e, (h1, u1))"
      using st k Throw by (simp add: elem_at_def)
    have 3: "length [?entry] \<le> length (k # ks)" by simp
    have 4: "\<forall>j < length [?entry]. fst ([?entry] ! j) = snd ([?entry] ! j) ! ((k # ks) ! j) \<and>
                           length (snd ([?entry] ! j)) = length (arr_of h a)"
      by simp
    have 5: "keeps_elements F a \<longrightarrow>
               map fst [?entry] = map (\<lambda>k. arr_of h a ! k) (take (length [?entry]) (k # ks))"
      by simp
    have 6: "(Throw e = Normal Undefined \<and> length [?entry] = length (k # ks)) \<or>
             ((\<exists>e'. Throw e = Throw e') \<and> \<not> never_throws F)"
      using nt by simp
    from 1 2 3 4 5 6 show ?thesis by blast
  next
    case (Normal r)
    have len: "length (arr_of h1 a) = length (arr_of h a)"
      using F st Normal unfolding keeps_length_def by (metis fst_conv)
    have "\<forall>k \<in> set ks. k < length (arr_of h1 a)" using Cons.prems len by simp
    from Cons.IH[OF this, of u1 "log @ [?entry]"]
    obtain c h' u' log' where
      A: "invoke_each (Fn (recording a F)) a ks (h1, (u1, log @ [?entry]))
            = (c, (h', (u', (log @ [?entry]) @ log')))"
      and B: "invoke_each (Fn F) a ks (h1, u1) = (c, (h', u'))"
      and C: "length log' \<le> length ks"
      and D: "\<forall>j < length log'. fst (log' ! j) = snd (log' ! j) ! (ks ! j) \<and>
                           length (snd (log' ! j)) = length (arr_of h1 a)"
      and G: "(c = Normal Undefined \<and> length log' = length ks) \<or> ((\<exists>e. c = Throw e) \<and> \<not> never_throws F)"
      and E: "keeps_elements F a \<longrightarrow> map fst log' = map (\<lambda>k. arr_of h1 a ! k) (take (length log') ks)"
      by blast
    let ?log = "?entry # log'"
    have 1: "invoke_each (Fn (recording a F)) a (k # ks) (h, (u, log)) = (c, (h', (u', log @ ?log)))"
      using st k A Normal by (simp add: recording_def elem_at_def)
    have 2: "invoke_each (Fn F) a (k # ks) (h, u) = (c, (h', u'))"
      using st k B Normal by (simp add: elem_at_def)
    have 3: "length ?log \<le> length (k # ks)" using C by simp
    have 4: "\<forall>j < length ?log. fst (?log ! j) = snd (?log ! j) ! ((k # ks) ! j) \<and>
                           length (snd (?log ! j)) = length (arr_of h a)"
      using D len by (auto simp: nth_Cons split: nat.splits)
    have 5: "keeps_elements F a \<longrightarrow> map fst ?log = map (\<lambda>k. arr_of h a ! k) (take (length ?log) (k # ks))"
      using E ke by auto
    have 6: "(c = Normal Undefined \<and> length ?log = length (k # ks)) \<or> ((\<exists>e. c = Throw e) \<and> \<not> never_throws F)"
      using G by auto
    from 1 2 3 4 5 6 show ?thesis by blast
  qed
qed

lemma recording_keeps_length:
  assumes "keeps_length F a" and "call1 (Fn (recording a F)) x w = (Normal r, w')"
  shows "length (arr_of (fst w') a) = length (arr_of (fst w) a)"
proof -
  obtain h u log where w: "w = (h, (u, log))" by (metis surj_pair)
  obtain c h1 u1 where f: "F x (h, u) = (c, (h1, u1))" by (metis surj_pair)
  then have "c = Normal r" and "fst w' = h1"
    using assms(2) w by (auto simp add: recording_def)
  then show ?thesis
    using assms(1) f w unfolding keeps_length_def by (metis fst_conv)
qed

lemma map_nth_prefix: "m \<le> length xs \<Longrightarrow> map (\<lambda>k. xs ! k) [0..<m] = take m xs"
  by (induction m) (simp_all add: take_Suc_conv_app_nth)

text \<open>
  Claim C1. For every array \<open>S\<close> (at address \<open>a\<close>) and every callback \<open>F\<close> that does not
  change the length of \<open>S\<close>, \<^verbatim>\<open>forEach(S, F)\<close> completes, and it calls \<open>F\<close> once per
  index in ascending order: the \<open>i\<close>-th call (counting from 0) receives the element
  \<open>S[i]\<close> of the array as it is at that call. When no call of \<open>F\<close> throws,
  \<^verbatim>\<open>forEach\<close> returns \<^verbatim>\<open>undefined\<close> (no value) and \<open>F\<close> has been called exactly
  \<open>length S\<close> times; a throw of \<open>F\<close> is the only other way to complete, and ends the
  calls there. The wrapped run has the same effect on heap and user state as the
  plain one, and when \<open>F\<close> does not touch \<open>S\<close> the arguments are the elements of
  \<open>S\<close> in order.
\<close>

theorem forEach_calls_in_order:
  fixes F :: "'u callback"
  assumes F: "keeps_length F a"
  shows "\<exists>c h' u' log.
      scratch_forEach a (Fn (recording a F)) (h, (u, [])) = Some (c, (h', (u', log))) \<and>
      scratch_forEach a (Fn F) (h, u) = Some (c, (h', u')) \<and>
      ((c = Normal Undefined \<and> length log = length (arr_of h a)) \<or>
       ((\<exists>e. c = Throw e) \<and> \<not> never_throws F \<and> length log \<le> length (arr_of h a))) \<and>
      (\<forall>i < length log. fst (log ! i) = snd (log ! i) ! i \<and>
                         length (snd (log ! i)) = length (arr_of h a)) \<and>
      (keeps_elements F a \<longrightarrow> map fst log = take (length log) (arr_of h a))"
proof -
  let ?n = "length (arr_of h a)"
  have R: "scratch_forEach a (Fn (recording a F)) (h, (u, []))
             = Some (invoke_each (Fn (recording a F)) a [0..<?n] (h, (u, [])))"
    using forEach_run[where I = "\<lambda>w::('u \<times> (jsval \<times> jsval list) list) world. True"
                       and w = "(h, (u, []))" and a = a and fn = "Fn (recording a F)"]
          recording_keeps_length[OF F]
    by simp
  have P: "scratch_forEach a (Fn F) (h, u)
             = Some (invoke_each (Fn F) a [0..<?n] (h, u))"
  proof -
    have "length (arr_of (fst w') a) = length (arr_of (fst w) a)"
      if "call1 (Fn F) x w = (Normal r, w')" for x r and w w' :: "'u world"
      using F that unfolding keeps_length_def call1.simps by blast
    then show ?thesis
      using forEach_run[where I = "\<lambda>w::'u world. True" and w = "(h, u)" and a = a and fn = "Fn F"]
      by simp
  qed
  have "\<forall>k \<in> set [0..<?n]. k < ?n" by simp
  from invoke_each_recording[OF F this, of u "[]"]
  obtain c h' u' log' where
    A: "invoke_each (Fn (recording a F)) a [0..<?n] (h, (u, [])) = (c, (h', (u', log')))"
    and B: "invoke_each (Fn F) a [0..<?n] (h, u) = (c, (h', u'))"
    and C: "length log' \<le> ?n"
    and D: "\<forall>j < length log'. fst (log' ! j) = snd (log' ! j) ! ([0..<?n] ! j) \<and>
                         length (snd (log' ! j)) = ?n"
    and G: "(c = Normal Undefined \<and> length log' = length [0..<?n]) \<or> ((\<exists>e. c = Throw e) \<and> \<not> never_throws F)"
    and E: "keeps_elements F a \<longrightarrow>
              map fst log' = map (\<lambda>k. arr_of h a ! k) (take (length log') [0..<?n])"
    by auto
  have 1: "scratch_forEach a (Fn (recording a F)) (h, (u, [])) = Some (c, (h', (u', log')))"
    using R A by simp
  have 2: "scratch_forEach a (Fn F) (h, u) = Some (c, (h', u'))"
    using P B by simp
  have 3: "(c = Normal Undefined \<and> length log' = ?n) \<or>
       ((\<exists>e. c = Throw e) \<and> \<not> never_throws F \<and> length log' \<le> ?n)"
    using G C by auto
  have 4: "\<forall>i < length log'. fst (log' ! i) = snd (log' ! i) ! i \<and> length (snd (log' ! i)) = ?n"
    using D C by simp
  have "take (length log') [0..<?n] = [0..<length log']"
    using C by (simp add: take_upt)
  then have 5: "keeps_elements F a \<longrightarrow> map fst log' = take (length log') (arr_of h a)"
    using E C by (simp add: map_nth_prefix)
  from 1 2 3 4 5 show ?thesis by blast
qed

theorem forEach_calls_in_order_witness:
  "keeps_length (\<lambda>x (h, u :: jsval list). (Normal Undefined, (h, x # u))) 0 \<and>
   (\<exists>h' u' log.
      scratch_forEach 0 (Fn (recording 0 (\<lambda>x (h, u :: jsval list). (Normal Undefined, (h, x # u)))))
          ([Arr [Num 1, Num 2]], ([], []))
        = Some (Normal Undefined, (h', (u', log))) \<and>
      length log = 2 \<and> map fst log = [Num 1, Num 2])"
proof -
  let ?F = "\<lambda>x (h, u :: jsval list). (Normal Undefined, (h, x # u))"
  have r: "keeps_length ?F 0"
    by (simp add: keeps_length_def)
  have k: "keeps_elements ?F 0"
    by (simp add: keeps_elements_def)
  have n: "never_throws ?F"
    by (simp add: never_throws_def split: prod.splits)
  show ?thesis
    using r k n forEach_calls_in_order[OF r, of "[Arr [Num 1, Num 2]]" "[]"]
    by (auto simp add: arr_of_def)
qed

section \<open>\<^verbatim>\<open>reduce\<close>: a left fold\<close>

text \<open>An aggregator that leaves the array at \<open>a\<close> as it was whenever it returns.\<close>

definition keeps_array :: "'u callback2 arg \<Rightarrow> addr \<Rightarrow> bool" where
  "keeps_array aggregator a \<longleftrightarrow>
     (\<forall>m x w v w'. call2 aggregator m x w = (Normal v, w') \<longrightarrow>
        arr_of (fst w') a = arr_of (fst w) a)"

text \<open>
  An aggregator without effects, given by a function on values; and \<^verbatim>\<open>(a, b) => a + b\<close>
  on numbers (what \<^verbatim>\<open>+\<close> does to other values is not modelled).
\<close>

definition pure2 :: "(jsval \<Rightarrow> jsval \<Rightarrow> jsval) \<Rightarrow> 'u callback2 arg" where
  "pure2 f = Fn (\<lambda>m x w. (Normal (f m x), w))"

definition plus :: "jsval \<Rightarrow> jsval \<Rightarrow> jsval" where
  "plus a b = (case (a, b) of (Num i, Num j) \<Rightarrow> Num (i + j) | _ \<Rightarrow> Undefined)"

lemma fold_left_pure:
  "fold_left (pure2 f) xs m w = (Normal (foldl f m xs), w)"
  by (induction xs arbitrary: m) (simp_all add: pure2_def)

lemma keeps_array_pure: "keeps_array (pure2 f) a"
  by (simp add: keeps_array_def pure2_def)

lemma reduce_keeps_array:
  assumes "keeps_array agg a"
  shows "scratch_reduce a agg m (h, u) = Some (fold_left agg (arr_of h a) m (h, u))"
proof -
  have "arr_of h' a = arr_of h a"
    if "call2 agg m x (h, u) = (Normal v, (h', u'))" for m x h u v h' u'
    using assms that unfolding keeps_array_def by fastforce
  then show ?thesis
    using reduce_run[where J = "\<lambda>m w. True" and agg = agg and a = a and xs = "arr_of h a"
                      and h = h and u = u and m = m]
    by metis
qed

text \<open>
  Claim C2. \<^verbatim>\<open>reduce\<close> folds the array left to right: starting from the initial
  accumulator, each element in turn replaces the accumulator by
  \<^verbatim>\<open>aggregator(accumulator, element)\<close>, and the final accumulator is returned. This holds
  for every aggregator that leaves the array itself alone (with all its other effects
  and throws, as \<open>fold_left\<close> spells out), in particular for every aggregator that is a
  function of its two arguments, where the result is \<open>foldl\<close>. On an empty array
  \<^verbatim>\<open>reduce\<close> returns the initial accumulator for any aggregator whatsoever, and
  leaves the world unchanged.
\<close>

theorem reduce_folds_left:
  "(keeps_array aggregator a \<longrightarrow>
      scratch_reduce a aggregator m0 (h, u) = Some (fold_left aggregator (arr_of h a) m0 (h, u))) \<and>
   scratch_reduce a (pure2 f) m0 (h, u) = Some (Normal (foldl f m0 (arr_of h a)), (h, u)) \<and>
   (arr_of h a = [] \<longrightarrow> scratch_reduce a aggregator m0 (h, u) = Some (Normal m0, (h, u)))"
proof (intro conjI impI)
  assume "keeps_array aggregator a"
  then show "scratch_reduce a aggregator m0 (h, u) = Some (fold_left aggregator (arr_of h a) m0 (h, u))"
    by (rule reduce_keeps_array)
next
  show "scratch_reduce a (pure2 f) m0 (h, u) = Some (Normal (foldl f m0 (arr_of h a)), (h, u))"
    by (simp add: reduce_keeps_array[OF keeps_array_pure] fold_left_pure)
next
  assume e: "arr_of h a = []"
  have "scratch_reduce a aggregator m0 (h, u) = Some (fold_left aggregator [] m0 (h, u))"
    by (rule reduce_run[where J = "\<lambda>m w. True"]) (simp_all add: e)
  then show "scratch_reduce a aggregator m0 (h, u) = Some (Normal m0, (h, u))"
    by simp
qed

theorem reduce_folds_left_witness:
  "keeps_array (pure2 plus) 0 \<and>
   scratch_reduce 0 (pure2 plus) (Num 0) ([Arr [Num 1, Num 2, Num 3]], ())
     = Some (Normal (Num 6), ([Arr [Num 1, Num 2, Num 3]], ())) \<and>
   arr_of [Arr []] 0 = [] \<and>
   scratch_reduce 0 (NonFn Null) (Num 7) ([Arr []], ()) = Some (Normal (Num 7), ([Arr []], ()))"
proof -
  have k: "keeps_array (pure2 plus) 0"
    by (simp add: keeps_array_def pure2_def)
  have e: "arr_of [Arr []] 0 = []"
    by (simp add: arr_of_def)
  have "scratch_reduce 0 (pure2 plus) (Num 0) ([Arr [Num 1, Num 2, Num 3]], ())
          = Some (Normal (foldl plus (Num 0) (arr_of [Arr [Num 1, Num 2, Num 3]] 0)),
                  ([Arr [Num 1, Num 2, Num 3]], ()))"
    using reduce_folds_left[of "pure2 plus" 0 "Num 0" "[Arr [Num 1, Num 2, Num 3]]" "()" plus]
    by blast
  moreover have "foldl plus (Num 0) (arr_of [Arr [Num 1, Num 2, Num 3]] 0) = Num 6"
    by (simp add: arr_of_def plus_def)
  moreover have "scratch_reduce 0 (NonFn Null) (Num 7) ([Arr []], ()) = Some (Normal (Num 7), ([Arr []], ()))"
    using reduce_folds_left[of "NonFn Null" 0 "Num 7" "[Arr []]" "()" plus] e
    by blast
  ultimately show ?thesis using k e by simp
qed



section \<open>\<^verbatim>\<open>map\<close> and \<^verbatim>\<open>filter\<close> as folds into a fresh array\<close>

text \<open>
  A selector that only reads is described by the completion \<open>rd x\<close> it gives for each
  element. \<^verbatim>\<open>map\<close> then collects the values up to the first element whose selector
  call throws (\<open>map_values\<close>) and completes with the reference to the result, or with
  that first throw (\<open>map_outcome\<close>).
\<close>

definition map_outcome :: "(jsval \<Rightarrow> completion) \<Rightarrow> jsval list \<Rightarrow> jsval \<Rightarrow> completion" where
  "map_outcome rd xs result =
     (case dropWhile (\<lambda>x. returned (rd x)) xs of [] \<Rightarrow> Normal result | y # ys \<Rightarrow> rd y)"

definition map_values :: "(jsval \<Rightarrow> completion) \<Rightarrow> jsval list \<Rightarrow> jsval list" where
  "map_values rd xs = map (\<lambda>x. value_of (rd x)) (takeWhile (\<lambda>x. returned (rd x)) xs)"

lemma push_array:
  "r < length h \<Longrightarrow> h ! r = Arr ys \<Longrightarrow>
     push (Ref r) v h = (Normal (Num (int (length ys) + 1)), h[r := Arr (ys @ [v])])"
  by (simp add: push_def)

lemma fold_map_aggregator:
  assumes "r < length h" and "h ! r = Arr ys"
    and "\<forall>x \<in> set xs. \<forall>zs. call1 sel x (h[r := Arr zs], u) = (rd x, (h[r := Arr zs], u))"
  shows "fold_left (Fn (map_aggregator sel)) xs (Ref r) (h, u) =
           (map_outcome rd xs (Ref r), (h[r := Arr (ys @ map_values rd xs)], u))"
  using assms
proof (induction xs arbitrary: h ys)
  case Nil
  have "h[r := Arr ys] = h"
    using Nil(2) by (metis list_update_id)
  then show ?case
    by (simp add: map_outcome_def map_values_def)
next
  case (Cons x xs)
  have hid: "h[r := Arr ys] = h"
    using Cons.prems(2) by (metis list_update_id)
  have sx: "call1 sel x (h, u) = (rd x, (h, u))"
    using Cons.prems(3) hid by (metis list.set_intros(1))
  show ?case
  proof (cases "rd x")
    case (Throw e)
    then show ?thesis using sx hid
      by (simp add: map_aggregator_def map_outcome_def map_values_def)
  next
    case (Normal v)
    let ?h = "h[r := Arr (ys @ [v])]"
    have 1: "r < length ?h" using Cons.prems(1) by simp
    have 2: "?h ! r = Arr (ys @ [v])" using Cons.prems(1) by simp
    have 3: "\<forall>x \<in> set xs. \<forall>zs. call1 sel x (?h[r := Arr zs], u) = (rd x, (?h[r := Arr zs], u))"
      using Cons.prems(3) by simp
    have step: "map_aggregator sel (Ref r) x (h, u) = (Normal (Ref r), (?h, u))"
      using sx Normal push_array[OF Cons.prems(1,2)] by (simp add: map_aggregator_def)
    show ?thesis
      using Cons.IH[OF 1 2 3] step Normal
      by (simp add: map_outcome_def map_values_def)
  qed
qed

lemma fold_filter_aggregator:
  assumes "r < length h" and "h ! r = Arr ys"
    and "\<forall>x \<in> set xs. \<forall>zs. call1 pred x (h[r := Arr zs], u) = (Normal (g x), (h[r := Arr zs], u))"
  shows "fold_left (Fn (filter_aggregator pred)) xs (Ref r) (h, u) =
           (Normal (Ref r), (h[r := Arr (ys @ filter (\<lambda>x. truthy (g x)) xs)], u))"
  using assms
proof (induction xs arbitrary: h ys)
  case Nil
  have "h[r := Arr ys] = h"
    using Nil(2) by (metis list_update_id)
  then show ?case
    by simp
next
  case (Cons x xs)
  have hid: "h[r := Arr ys] = h"
    using Cons.prems(2) by (metis list_update_id)
  have sx: "call1 pred x (h, u) = (Normal (g x), (h, u))"
    using Cons.prems(3) hid by (metis list.set_intros(1))
  show ?case
  proof (cases "truthy (g x)")
    case False
    have 3: "\<forall>x \<in> set xs. \<forall>zs. call1 pred x (h[r := Arr zs], u) = (Normal (g x), (h[r := Arr zs], u))"
      using Cons.prems(3) by simp
    have step: "filter_aggregator pred (Ref r) x (h, u) = (Normal (Ref r), (h, u))"
      using sx False by (simp add: filter_aggregator_def)
    show ?thesis
      using Cons.IH[OF Cons.prems(1,2) 3] step False by simp
  next
    case True
    let ?h = "h[r := Arr (ys @ [x])]"
    have 1: "r < length ?h" using Cons.prems(1) by simp
    have 2: "?h ! r = Arr (ys @ [x])" using Cons.prems(1) by simp
    have 3: "\<forall>x \<in> set xs. \<forall>zs. call1 pred x (?h[r := Arr zs], u) = (Normal (g x), (?h[r := Arr zs], u))"
      using Cons.prems(3) by simp
    have step: "filter_aggregator pred (Ref r) x (h, u) = (Normal (Ref r), (?h, u))"
      using sx True push_array[OF Cons.prems(1,2)] by (simp add: filter_aggregator_def)
    show ?thesis
      using Cons.IH[OF 1 2 3] step True by simp
  qed
qed

lemma arr_of_append: "a < length h \<Longrightarrow> arr_of (h @ [obj]) a = arr_of h a"
  by (simp add: arr_of_def nth_append)

lemma arr_of_new: "arr_of (h @ [Arr zs]) (length h) = zs"
  by (simp add: arr_of_def)

lemma map_run:
  assumes a: "a < length h"
    and sel: "\<forall>x \<in> set (arr_of h a). \<forall>zs. call1 sel x (h @ [Arr zs], u) = (rd x, (h @ [Arr zs], u))"
  shows "scratch_map a sel (h, u) =
           Some (map_outcome rd (arr_of h a) (Ref (length h)), (h @ [Arr (map_values rd (arr_of h a))], u))"
proof -
  let ?xs = "arr_of h a" and ?r = "length h" and ?h1 = "h @ [Arr []]"
  let ?J = "\<lambda>m w. m = Ref ?r \<and> (\<exists>zs. w = (h @ [Arr zs], u))"
  have upd: "?h1[?r := Arr zs] = h @ [Arr zs]" for zs
    by simp
  have step: "?J v (h'', u'') \<and> arr_of h'' a = ?xs"
    if "?J m (h', u')" and "x \<in> set ?xs"
      and c: "call2 (Fn (map_aggregator sel)) m x (h', u') = (Normal v, (h'', u''))"
    for m x h' u' v h'' u''
  proof -
    from that(1) obtain zs where m: "m = Ref ?r" and h': "h' = h @ [Arr zs]" and u': "u' = u"
      by auto
    have s: "call1 sel x (h @ [Arr zs], u) = (rd x, (h @ [Arr zs], u))"
      using sel that(2) by blast
    have p: "push (Ref ?r) y (h @ [Arr zs]) = (Normal (Num (int (length zs) + 1)), h @ [Arr (zs @ [y])])" for y
      using push_array[of ?r "h @ [Arr zs]" zs y] by simp
    show ?thesis
    proof (cases "rd x")
      case (Throw e)
      then show ?thesis using c s m h' u' by (simp add: map_aggregator_def)
    next
      case (Normal y)
      then have "v = Ref ?r" and "h'' = h @ [Arr (zs @ [y])]" and "u'' = u"
        using c s m h' u' p by (simp_all add: map_aggregator_def)
      then show ?thesis using a by (simp add: arr_of_append)
    qed
  qed
  have "scratch_reduce a (Fn (map_aggregator sel)) (Ref ?r) (?h1, u)
          = Some (fold_left (Fn (map_aggregator sel)) ?xs (Ref ?r) (?h1, u))"
  proof (rule reduce_run[where J = ?J])
    show "Ref ?r = Ref ?r \<and> (\<exists>zs. (?h1, u) = (h @ [Arr zs], u))" by simp
    show "arr_of ?h1 a = ?xs" using a by (simp add: arr_of_append)
  qed (use step in blast)
  moreover have "fold_left (Fn (map_aggregator sel)) ?xs (Ref ?r) (?h1, u) =
           (map_outcome rd ?xs (Ref ?r), (?h1[?r := Arr ([] @ map_values rd ?xs)], u))"
    by (rule fold_map_aggregator) (simp_all add: sel)
  ultimately show ?thesis
    by (simp add: scratch_map_def)
qed

lemma filter_run:
  assumes a: "a < length h"
    and pred: "\<forall>x \<in> set (arr_of h a). \<forall>zs. call1 pred x (h @ [Arr zs], u) = (Normal (g x), (h @ [Arr zs], u))"
  shows "scratch_filter a pred (h, u) =
           Some (Normal (Ref (length h)), (h @ [Arr (filter (\<lambda>x. truthy (g x)) (arr_of h a))], u))"
proof -
  let ?xs = "arr_of h a" and ?r = "length h" and ?h1 = "h @ [Arr []]"
  let ?J = "\<lambda>m w. m = Ref ?r \<and> (\<exists>zs. w = (h @ [Arr zs], u))"
  have step: "?J v (h'', u'') \<and> arr_of h'' a = ?xs"
    if "?J m (h', u')" and "x \<in> set ?xs"
      and c: "call2 (Fn (filter_aggregator pred)) m x (h', u') = (Normal v, (h'', u''))"
    for m x h' u' v h'' u''
  proof -
    from that(1) obtain zs where m: "m = Ref ?r" and h': "h' = h @ [Arr zs]" and u': "u' = u"
      by auto
    have s: "call1 pred x (h @ [Arr zs], u) = (Normal (g x), (h @ [Arr zs], u))"
      using pred that(2) by blast
    have p: "push (Ref ?r) y (h @ [Arr zs]) = (Normal (Num (int (length zs) + 1)), h @ [Arr (zs @ [y])])" for y
      using push_array[of ?r "h @ [Arr zs]" zs y] by simp
    show ?thesis
    proof (cases "truthy (g x)")
      case False
      then have "v = Ref ?r" and "h'' = h @ [Arr zs]" and "u'' = u"
        using c s m h' u' by (simp_all add: filter_aggregator_def)
      then show ?thesis using a by (simp add: arr_of_append)
    next
      case True
      then have "v = Ref ?r" and "h'' = h @ [Arr (zs @ [x])]" and "u'' = u"
        using c s m h' u' p by (simp_all add: filter_aggregator_def)
      then show ?thesis using a by (simp add: arr_of_append)
    qed
  qed
  have "scratch_reduce a (Fn (filter_aggregator pred)) (Ref ?r) (?h1, u)
          = Some (fold_left (Fn (filter_aggregator pred)) ?xs (Ref ?r) (?h1, u))"
  proof (rule reduce_run[where J = ?J])
    show "Ref ?r = Ref ?r \<and> (\<exists>zs. (?h1, u) = (h @ [Arr zs], u))" by simp
    show "arr_of ?h1 a = ?xs" using a by (simp add: arr_of_append)
  qed (use step in blast)
  moreover have "fold_left (Fn (filter_aggregator pred)) ?xs (Ref ?r) (?h1, u) =
           (Normal (Ref ?r), (?h1[?r := Arr ([] @ filter (\<lambda>x. truthy (g x)) ?xs)], u))"
    by (rule fold_filter_aggregator) (simp_all add: pred)
  ultimately show ?thesis
    by (simp add: scratch_filter_def)
qed



section \<open>\<^verbatim>\<open>map\<close>, \<^verbatim>\<open>filter\<close> and \<^verbatim>\<open>compact\<close> on selectors and predicates without effects\<close>

text \<open>
  A selector or predicate that is a function of the element alone; and the two
  callbacks of the documented examples, \<^verbatim>\<open>x => x * 2\<close> and \<^verbatim>\<open>x => x % 2 == 0\<close>,
  on numbers.
\<close>

definition pure1 :: "(jsval \<Rightarrow> jsval) \<Rightarrow> 'u callback arg" where
  "pure1 f = Fn (\<lambda>x w. (Normal (f x), w))"

definition times2 :: "jsval \<Rightarrow> jsval" where
  "times2 v = (case v of Num n \<Rightarrow> Num (n * 2) | _ \<Rightarrow> Undefined)"

definition is_even :: "jsval \<Rightarrow> jsval" where
  "is_even v = (case v of Num n \<Rightarrow> Bool (n mod 2 = 0) | _ \<Rightarrow> Bool False)"

lemma map_pure:
  assumes "a < length h"
  shows "scratch_map a (pure1 f) (h, u) =
           Some (Normal (Ref (length h)), (h @ [Arr (map f (arr_of h a))], u))"
proof -
  let ?rd = "\<lambda>x. Normal (f x)"
  have "scratch_map a (pure1 f) (h, u) =
          Some (map_outcome ?rd (arr_of h a) (Ref (length h)), (h @ [Arr (map_values ?rd (arr_of h a))], u))"
    by (rule map_run[OF assms]) (simp add: pure1_def)
  moreover have "takeWhile (\<lambda>x. True) (arr_of h a) = arr_of h a"
    and "dropWhile (\<lambda>x. True) (arr_of h a) = []"
    by simp_all
  ultimately show ?thesis
    by (simp add: map_outcome_def map_values_def)
qed

lemma filter_pure:
  assumes "a < length h"
  shows "scratch_filter a (pure1 p) (h, u) =
           Some (Normal (Ref (length h)), (h @ [Arr (filter (\<lambda>x. truthy (p x)) (arr_of h a))], u))"
  by (rule filter_run[OF assms]) (simp add: pure1_def)

lemma compact_run:
  assumes "a < length h"
  shows "scratch_compact a (h, u) =
           Some (Normal (Ref (length h)),
                 (h @ [Arr (filter (\<lambda>x. x \<noteq> Null \<and> x \<noteq> Undefined) (arr_of h a))], u))"
proof -
  have "scratch_filter a (Fn compact_predicate) (h, u) =
          Some (Normal (Ref (length h)),
                (h @ [Arr (filter (\<lambda>x. truthy (Bool (x \<noteq> Null \<and> x \<noteq> Undefined))) (arr_of h a))], u))"
    by (rule filter_run[OF assms]) (simp add: compact_predicate_def)
  then show ?thesis
    by (simp add: scratch_compact_def)
qed

text \<open>
  Claim C3. For every array \<open>S\<close> at a valid address \<open>a\<close> and every selector \<open>f\<close>,
  \<^verbatim>\<open>map(S, f)\<close> returns a reference to a newly allocated array (its address
  \<open>length h\<close> is not an address of the heap \<open>h\<close> it was called in), of the same length
  as \<open>S\<close>, whose \<open>i\<close>-th element is \<open>f (S[i])\<close>; every object of the old heap, the input
  among them, is left as it was.
\<close>

theorem map_selects_each:
  assumes "a < length h"
  shows "scratch_map a (pure1 f) (h, u) =
           Some (Normal (Ref (length h)), (h @ [Arr (map f (arr_of h a))], u)) \<and>
         length (map f (arr_of h a)) = length (arr_of h a) \<and>
         (\<forall>i < length (arr_of h a). map f (arr_of h a) ! i = f (arr_of h a ! i)) \<and>
         arr_of (h @ [Arr (map f (arr_of h a))]) a = arr_of h a"
  using assms by (simp add: map_pure arr_of_append)

theorem map_selects_each_witness:
  "(0::nat) < length [Arr [Num 1, Num 2, Num 3]] \<and>
   scratch_map 0 (pure1 times2) ([Arr [Num 1, Num 2, Num 3]], ())
     = Some (Normal (Ref 1), ([Arr [Num 1, Num 2, Num 3], Arr [Num 2, Num 4, Num 6]], ()))"
  using map_selects_each[of 0 "[Arr [Num 1, Num 2, Num 3]]" times2 "()"]
  by (simp add: arr_of_def times2_def)

text \<open>
  Claim C4. For every array \<open>S\<close> at a valid address and every predicate \<open>p\<close>,
  \<^verbatim>\<open>filter(S, p)\<close> returns a reference to a newly allocated array holding, in their
  original order, exactly the elements \<open>x\<close> of \<open>S\<close> with \<open>p x\<close> truthy; it is at most as
  long as \<open>S\<close>, and the input is left as it was.
\<close>

theorem filter_keeps_matching:
  assumes "a < length h"
  shows "scratch_filter a (pure1 p) (h, u) =
           Some (Normal (Ref (length h)), (h @ [Arr (filter (\<lambda>x. truthy (p x)) (arr_of h a))], u)) \<and>
         length (filter (\<lambda>x. truthy (p x)) (arr_of h a)) \<le> length (arr_of h a) \<and>
         arr_of (h @ [Arr (filter (\<lambda>x. truthy (p x)) (arr_of h a))]) a = arr_of h a"
  using assms by (simp add: filter_pure arr_of_append)

theorem filter_keeps_matching_witness:
  "(0::nat) < length [Arr [Num 1, Num 2, Num 3, Num 4]] \<and>
   scratch_filter 0 (pure1 is_even) ([Arr [Num 1, Num 2, Num 3, Num 4]], ())
     = Some (Normal (Ref 1), ([Arr [Num 1, Num 2, Num 3, Num 4], Arr [Num 2, Num 4]], ()))"
  using filter_keeps_matching[of 0 "[Arr [Num 1, Num 2, Num 3, Num 4]]" is_even "()"]
  by (simp add: arr_of_def is_even_def)

text \<open>
  Claim C5. \<^verbatim>\<open>compact(S)\<close> returns a new array with the elements of \<open>S\<close> other than
  \<^verbatim>\<open>null\<close> and \<^verbatim>\<open>undefined\<close>, in order: exactly those two values are removed, every
  other value (the falsy \<^verbatim>\<open>0\<close>, \<^verbatim>\<open>''\<close> and \<^verbatim>\<open>false\<close> included) is kept. In
  particular \<^verbatim>\<open>compact([0, null, 1, undefined, false, 2])\<close> is \<^verbatim>\<open>[0, 1, false, 2]\<close>.
\<close>

theorem compact_drops_null_undefined:
  "(a < length h \<longrightarrow>
      scratch_compact a (h, u) =
        Some (Normal (Ref (length h)),
              (h @ [Arr (filter (\<lambda>x. x \<noteq> Null \<and> x \<noteq> Undefined) (arr_of h a))], u)) \<and>
      set (filter (\<lambda>x. x \<noteq> Null \<and> x \<noteq> Undefined) (arr_of h a)) = set (arr_of h a) - {Null, Undefined}) \<and>
   scratch_compact 0 ([Arr [Num 0, Null, Num 1, Undefined, Bool False, Num 2]], u) =
     Some (Normal (Ref 1),
           ([Arr [Num 0, Null, Num 1, Undefined, Bool False, Num 2],
             Arr [Num 0, Num 1, Bool False, Num 2]], u))"
proof (intro conjI impI)
  assume "a < length h"
  then show "scratch_compact a (h, u) =
        Some (Normal (Ref (length h)),
              (h @ [Arr (filter (\<lambda>x. x \<noteq> Null \<and> x \<noteq> Undefined) (arr_of h a))], u))"
    by (rule compact_run)
next
  show "set (filter (\<lambda>x. x \<noteq> Null \<and> x \<noteq> Undefined) (arr_of h a)) = set (arr_of h a) - {Null, Undefined}"
    by auto
next
  show "scratch_compact 0 ([Arr [Num 0, Null, Num 1, Undefined, Bool False, Num 2]], u) =
     Some (Normal (Ref 1),
           ([Arr [Num 0, Null, Num 1, Undefined, Bool False, Num 2],
             Arr [Num 0, Num 1, Bool False, Num 2]], u))"
    by (simp add: compact_run arr_of_def)
qed

theorem compact_drops_null_undefined_witness:
  "(0::nat) < length [Arr [Str [], Undefined, Bool False, Null, Num 0]] \<and>
   scratch_compact 0 ([Arr [Str [], Undefined, Bool False, Null, Num 0]], ()) =
     Some (Normal (Ref 1),
           ([Arr [Str [], Undefined, Bool False, Null, Num 0], Arr [Str [], Bool False, Num 0]], ()))"
  using compact_drops_null_undefined[of 0 "[Arr [Str [], Undefined, Bool False, Null, Num 0]]" "()"]
  by (simp add: arr_of_def)



section \<open>\<^verbatim>\<open>pluck\<close>\<close>

text \<open>
  Every reference among the elements points into the heap (no dangling reference);
  the values on which reading a property throws; and the value read from an element.
\<close>

definition refs_valid :: "jsobj list \<Rightarrow> jsval list \<Rightarrow> bool" where
  "refs_valid h xs = list_all (\<lambda>x. case x of Ref q \<Rightarrow> q < length h | _ \<Rightarrow> True) xs"



lemma get_prop_append:
  "(case x of Ref q \<Rightarrow> q < length h | _ \<Rightarrow> True) \<Longrightarrow> get_prop (h @ [obj]) x p = get_prop h x p"
  by (cases x) (simp_all add: get_prop_def nth_append)



lemma pluck_run:
  assumes a: "a < length h" and v: "refs_valid h (arr_of h a)"
  shows "scratch_pluck a p (h, u) =
           Some (map_outcome (\<lambda>x. get_prop h x p) (arr_of h a) (Ref (length h)),
                 (h @ [Arr (map_values (\<lambda>x. get_prop h x p) (arr_of h a))], u))"
  unfolding scratch_pluck_def
proof (rule map_run[OF a], intro ballI allI)
  fix x zs
  assume "x \<in> set (arr_of h a)"
  then have "case x of Ref q \<Rightarrow> q < length h | _ \<Rightarrow> True"
    using v by (simp add: refs_valid_def list_all_iff)
  then show "call1 (Fn (pluck_selector p)) x (h @ [Arr zs], u) = (get_prop h x p, (h @ [Arr zs], u))"
    by (simp add: pluck_selector_def get_prop_append)
qed








section \<open>Calling twice\<close>

text \<open>
  \<open>same_twice run a w\<close>: \<open>run\<close> called in world \<open>w\<close>, and called again in the world the first
  call left, completes both times; either both calls return references to two
  different arrays with the same contents, or both throw the same error; and each
  time every object that was in the heap of \<open>w\<close>, the input array at \<open>a\<close> among them,
  is as it was.
\<close>

definition same_twice ::
  "('u world \<Rightarrow> (completion \<times> 'u world) option) \<Rightarrow> addr \<Rightarrow> 'u world \<Rightarrow> bool" where
  "same_twice run a w \<longleftrightarrow>
     (\<exists>c1 h1 c2 h2.
        run w = Some (c1, (h1, snd w)) \<and>
        run (h1, snd w) = Some (c2, (h2, snd w)) \<and>
        ((\<exists>r1 r2. c1 = Normal (Ref r1) \<and> c2 = Normal (Ref r2) \<and> r1 \<noteq> r2 \<and>
                   arr_of h1 r1 = arr_of h2 r2 \<and> arr_of h2 r1 = arr_of h2 r2) \<or>
         (\<exists>e. c1 = Throw e \<and> c2 = Throw e)) \<and>
        take (length (fst w)) h1 = fst w \<and> take (length (fst w)) h2 = fst w \<and>
        arr_of h1 a = arr_of (fst w) a \<and> arr_of h2 a = arr_of (fst w) a)"

lemma same_twiceI:
  assumes a: "a < length h"
    and 1: "run (h, u) = Some (c1, (h @ [Arr ys], u))"
    and 2: "run (h @ [Arr ys], u) = Some (c2, (h @ [Arr ys, Arr ys], u))"
    and c: "(c1 = Normal (Ref (length h)) \<and> c2 = Normal (Ref (Suc (length h)))) \<or>
            (\<exists>e. c1 = Throw e \<and> c2 = Throw e)"
  shows "same_twice run a (h, u)"
proof -
  have n1: "arr_of (h @ [Arr ys]) (length h) = ys"
    by (simp add: arr_of_def)
  have n2: "arr_of (h @ [Arr ys, Arr ys]) (Suc (length h)) = ys"
    by (simp add: arr_of_def nth_append)
  have n3: "arr_of (h @ [Arr ys, Arr ys]) (length h) = ys"
    by (simp add: arr_of_def nth_append)
  have i1: "arr_of (h @ [Arr ys]) a = arr_of h a"
    using a by (simp add: arr_of_def nth_append)
  have i2: "arr_of (h @ [Arr ys, Arr ys]) a = arr_of h a"
    using a by (simp add: arr_of_def nth_append)
  have "(\<exists>r1 r2. c1 = Normal (Ref r1) \<and> c2 = Normal (Ref r2) \<and> r1 \<noteq> r2 \<and>
                   arr_of (h @ [Arr ys]) r1 = arr_of (h @ [Arr ys, Arr ys]) r2 \<and>
                   arr_of (h @ [Arr ys, Arr ys]) r1 = arr_of (h @ [Arr ys, Arr ys]) r2) \<or>
         (\<exists>e. c1 = Throw e \<and> c2 = Throw e)"
    using c n1 n2 n3 by auto
  then show ?thesis
    unfolding same_twice_def using 1 2 i1 i2
    by (intro exI[of _ c1] exI[of _ "h @ [Arr ys]"] exI[of _ c2] exI[of _ "h @ [Arr ys, Arr ys]"]) simp
qed

lemma map_outcome_cases:
  "(\<forall>res. map_outcome rd xs res = Normal res) \<or> (\<exists>e. \<forall>res. map_outcome rd xs res = Throw e)"
proof (cases "dropWhile (\<lambda>x. returned (rd x)) xs")
  case Nil
  show ?thesis unfolding map_outcome_def Nil by simp
next
  case (Cons y ys)
  then have "\<not> returned (rd y)"
    using hd_dropWhile[of "\<lambda>x. returned (rd x)" xs] by simp
  then obtain e where "rd y = Throw e" by (cases "rd y") simp_all
  then show ?thesis unfolding map_outcome_def Cons by simp
qed

lemma pluck_run_again:
  assumes a: "a < length h" and v: "refs_valid h (arr_of h a)"
  shows "scratch_pluck a p (h @ [obj], u) =
           Some (map_outcome (\<lambda>x. get_prop h x p) (arr_of h a) (Ref (Suc (length h))),
                 (h @ [obj, Arr (map_values (\<lambda>x. get_prop h x p) (arr_of h a))], u))"
proof -
  have a': "a < length (h @ [obj])" using a by simp
  have "scratch_map a (Fn (pluck_selector p)) (h @ [obj], u) =
          Some (map_outcome (\<lambda>x. get_prop h x p) (arr_of (h @ [obj]) a) (Ref (length (h @ [obj]))),
                ((h @ [obj]) @ [Arr (map_values (\<lambda>x. get_prop h x p) (arr_of (h @ [obj]) a))], u))"
  proof (rule map_run[OF a'], intro ballI allI)
    fix x zs
    assume "x \<in> set (arr_of (h @ [obj]) a)"
    then have "x \<in> set (arr_of h a)" using a by (simp add: arr_of_append)
    then have ok: "case x of Ref q \<Rightarrow> q < length h | _ \<Rightarrow> True"
      using v by (simp add: refs_valid_def list_all_iff)
    then have "case x of Ref q \<Rightarrow> q < length (h @ [obj]) | _ \<Rightarrow> True"
      by (cases x) simp_all
    then have "get_prop ((h @ [obj]) @ [Arr zs]) x p = get_prop h x p"
      using ok get_prop_append by metis
    then show "call1 (Fn (pluck_selector p)) x ((h @ [obj]) @ [Arr zs], u) =
                 (get_prop h x p, ((h @ [obj]) @ [Arr zs], u))"
      by (simp add: pluck_selector_def)
  qed
  then show ?thesis using a by (simp add: scratch_pluck_def arr_of_append)
qed

text \<open>
  Claim C9. Calling \<^verbatim>\<open>map\<close>, \<^verbatim>\<open>filter\<close>, \<^verbatim>\<open>pluck\<close> or \<^verbatim>\<open>compact\<close> twice on the
  same array (with the same selector, predicate or property name) gives outputs
  that are equal by value, and none of the four changes its input array. Selector
  and predicate are functions of the element.
\<close>

theorem outputs_equal_on_repeat:
  assumes a: "a < length h"
  shows "same_twice (scratch_map a (pure1 f)) a (h, u) \<and>
         same_twice (scratch_filter a (pure1 g)) a (h, u) \<and>
         (refs_valid h (arr_of h a) \<longrightarrow> same_twice (scratch_pluck a p) a (h, u)) \<and>
         same_twice (scratch_compact a) a (h, u)"
proof (intro conjI impI)
  let ?ys = "map f (arr_of h a)"
  have a': "a < length (h @ [Arr ?ys])" using a by simp
  show "same_twice (scratch_map a (pure1 f)) a (h, u)"
    by (rule same_twiceI[OF a, where ys = ?ys and ?c1.0 = "Normal (Ref (length h))"
                            and ?c2.0 = "Normal (Ref (Suc (length h)))"])
       (simp_all add: map_pure[OF a] map_pure[OF a'] arr_of_append[OF a])
next
  let ?ys = "filter (\<lambda>x. truthy (g x)) (arr_of h a)"
  have a': "a < length (h @ [Arr ?ys])" using a by simp
  show "same_twice (scratch_filter a (pure1 g)) a (h, u)"
    by (rule same_twiceI[OF a, where ys = ?ys and ?c1.0 = "Normal (Ref (length h))"
                            and ?c2.0 = "Normal (Ref (Suc (length h)))"])
       (simp_all add: filter_pure[OF a] filter_pure[OF a'] arr_of_append[OF a])
next
  let ?ys = "filter (\<lambda>x. x \<noteq> Null \<and> x \<noteq> Undefined) (arr_of h a)"
  have a': "a < length (h @ [Arr ?ys])" using a by simp
  show "same_twice (scratch_compact a) a (h, u)"
    by (rule same_twiceI[OF a, where ys = ?ys and ?c1.0 = "Normal (Ref (length h))"
                            and ?c2.0 = "Normal (Ref (Suc (length h)))"])
       (simp_all add: compact_run[OF a] compact_run[OF a'] arr_of_append[OF a])
next
  assume v: "refs_valid h (arr_of h a)"
  let ?rd = "\<lambda>x. get_prop h x p"
  let ?ys = "map_values ?rd (arr_of h a)"
  show "same_twice (scratch_pluck a p) a (h, u)"
  proof (rule same_twiceI[OF a, where ys = ?ys])
    show "scratch_pluck a p (h, u) =
            Some (map_outcome ?rd (arr_of h a) (Ref (length h)), (h @ [Arr ?ys], u))"
      by (rule pluck_run[OF a v])
    show "scratch_pluck a p (h @ [Arr ?ys], u) =
            Some (map_outcome ?rd (arr_of h a) (Ref (Suc (length h))), (h @ [Arr ?ys, Arr ?ys], u))"
      by (rule pluck_run_again[OF a v])
    show "(map_outcome ?rd (arr_of h a) (Ref (length h)) = Normal (Ref (length h)) \<and>
           map_outcome ?rd (arr_of h a) (Ref (Suc (length h))) = Normal (Ref (Suc (length h)))) \<or>
          (\<exists>e. map_outcome ?rd (arr_of h a) (Ref (length h)) = Throw e \<and>
                map_outcome ?rd (arr_of h a) (Ref (Suc (length h))) = Throw e)"
    proof -
      consider (n) "\<forall>res. map_outcome ?rd (arr_of h a) res = Normal res"
        | (t) e where "\<forall>res. map_outcome ?rd (arr_of h a) res = Throw e"
        using map_outcome_cases[of ?rd "arr_of h a"] by blast
      then show ?thesis
      proof cases
        case n
        then show ?thesis by (intro disjI1) simp
      next
        case t
        then show ?thesis by (intro disjI2 exI[of _ e]) simp
      qed
    qed
  qed
qed


theorem outputs_equal_on_repeat_witness:
  "(0::nat) < length [Arr [Ref 1, Num 2, Null], Rec [(''a'', Num 1)]] \<and>
   refs_valid [Arr [Ref 1, Num 2, Null], Rec [(''a'', Num 1)]] [Ref 1, Num 2, Null] \<and>
   same_twice (scratch_map 0 (pure1 times2)) 0 ([Arr [Ref 1, Num 2, Null], Rec [(''a'', Num 1)]], ()) \<and>
   same_twice (scratch_filter 0 (pure1 is_even)) 0 ([Arr [Ref 1, Num 2, Null], Rec [(''a'', Num 1)]], ()) \<and>
   same_twice (scratch_pluck 0 ''a'') 0 ([Arr [Ref 1, Num 2, Null], Rec [(''a'', Num 1)]], ()) \<and>
   same_twice (scratch_compact 0) 0 ([Arr [Ref 1, Num 2, Null], Rec [(''a'', Num 1)]], ())"
proof -
  let ?h = "[Arr [Ref 1, Num 2, Null], Rec [(''a'', Num 1)]]"
  have a: "(0::nat) < length ?h" by simp
  have v: "refs_valid ?h (arr_of ?h 0)" by (simp add: refs_valid_def arr_of_def)
  have e: "arr_of ?h 0 = [Ref 1, Num 2, Null]" by (simp add: arr_of_def)
  show ?thesis
    using a v outputs_equal_on_repeat[OF a, of times2 "()" is_even "''a''"]
    unfolding e by blast
qed


section \<open>\<^verbatim>\<open>while\<close> and \<^verbatim>\<open>for\<close>: who is called, and when\<close>

text \<open>
  To observe calls, a function is wrapped so that each call appends an event to a
  log kept next to the state. \<open>rounds\<close> recognises what a run of the loop of
  \<^verbatim>\<open>for\<close> can leave in the log: full rounds condition, body, update, and a last round
  that stops after the condition (it was false, or threw), after the body (it
  threw) or after the update (it threw).
\<close>

datatype event = InitCalled | ConditionCalled | BodyCalled | UpdateCalled

definition logged :: "event \<Rightarrow> 's thunk \<Rightarrow> ('s \<times> event list) thunk" where
  "logged ev f = (\<lambda>(s, log). case f s of (c, s') \<Rightarrow> (c, (s', log @ [ev])))"










text \<open>
  Claim C6 says that \<^verbatim>\<open>while\<close> fails with a \<^verbatim>\<open>TypeError\<close>-class error whenever its
  condition or callback argument is not callable. The source checks the condition
  only, and throws a string. With a condition that is false at once, a callback
  that is not callable goes unnoticed and the call returns normally; and what the
  check throws is the reminder string, not a \<^verbatim>\<open>TypeError\<close> object.
\<close>

theorem while_check_counterexample:
  "scratch_while (Fn (\<lambda>s::unit. (Normal (Bool False), s))) (NonFn (Num 42)) ()
     = Some (Normal Undefined, ()) \<and>
   scratch_while (NonFn (Num 42)) (Fn (\<lambda>s::unit. (Normal Undefined, s))) ()
     = Some (Throw (ThrownValue (Str reminder)), ()) \<and>
   ThrownValue (Str reminder) \<noteq> TypeErrorObject"
  by (subst scratch_while_def, subst loop.simps) (simp add: scratch_while_def)

text \<open>
  Claim C6, amended. For every call to \<^verbatim>\<open>while\<close> whose condition argument is not
  callable, the call throws the reminder string, in the state it was called in:
  neither condition nor body has been invoked (the log of a wrapped body stays
  empty). A body that is not callable is not checked: the call returns normally when
  the condition is falsy at once, and otherwise the runtime's own \<^verbatim>\<open>TypeError\<close> arises
  at the first call of the body. The check is made in \<^verbatim>\<open>while\<close> only: \<^verbatim>\<open>for\<close> calls
  \<open>init\<close> first and then leaves a condition that is not callable to \<^verbatim>\<open>while\<close>, and an
  \<open>init\<close> that is not callable meets the runtime's \<^verbatim>\<open>TypeError\<close>, not the reminder.
\<close>

theorem while_checks_condition_only:
  "scratch_while (NonFn v) fn s = Some (Throw (ThrownValue (Str reminder)), s) \<and>
   scratch_while (NonFn v) (Fn (logged BodyCalled body)) (s0, [])
     = Some (Throw (ThrownValue (Str reminder)), (s0, [])) \<and>
   (condition s = (Normal t, s1) \<and> \<not> truthy t \<longrightarrow>
      scratch_while (Fn condition) (NonFn v) s = Some (Normal Undefined, s1)) \<and>
   (condition s = (Normal t, s1) \<and> truthy t \<longrightarrow>
      scratch_while (Fn condition) (NonFn v) s = Some (Throw TypeErrorObject, s1)) \<and>
   scratch_for init (NonFn v) update fn s =
     (case call0 init s of
        (Throw e, s') \<Rightarrow> Some (Throw e, s')
      | (Normal r, s') \<Rightarrow> Some (Throw (ThrownValue (Str reminder)), s')) \<and>
   scratch_for (NonFn v) cond update fn s = Some (Throw TypeErrorObject, s)"
proof (intro conjI impI)
  show "scratch_while (NonFn v) fn s = Some (Throw (ThrownValue (Str reminder)), s)"
    by (simp add: scratch_while_def)
  show "scratch_while (NonFn v) (Fn (logged BodyCalled body)) (s0, [])
     = Some (Throw (ThrownValue (Str reminder)), (s0, []))"
    by (simp add: scratch_while_def)
  show "scratch_for init (NonFn v) update fn s =
     (case call0 init s of
        (Throw e, s') \<Rightarrow> Some (Throw e, s')
      | (Normal r, s') \<Rightarrow> Some (Throw (ThrownValue (Str reminder)), s'))"
    by (simp add: scratch_for_def scratch_while_def split: prod.splits completion.splits)
  show "scratch_for (NonFn v) cond update fn s = Some (Throw TypeErrorObject, s)"
    by (simp add: scratch_for_def)
next
  assume "condition s = (Normal t, s1) \<and> \<not> truthy t"
  then show "scratch_while (Fn condition) (NonFn v) s = Some (Normal Undefined, s1)"
    by (subst scratch_while_def, subst loop.simps) simp
next
  assume "condition s = (Normal t, s1) \<and> truthy t"
  then show "scratch_while (Fn condition) (NonFn v) s = Some (Throw TypeErrorObject, s1)"
    by (subst scratch_while_def, subst loop.simps) simp
qed

theorem while_checks_condition_only_witness:
  "scratch_while (Fn (\<lambda>n::nat. (Normal (Num 0), Suc n))) (NonFn Null) 0 = Some (Normal Undefined, 1) \<and>
   scratch_while (Fn (\<lambda>n::nat. (Normal (Num 1), Suc n))) (NonFn Null) 0 = Some (Throw TypeErrorObject, 1)"
  using while_checks_condition_only[where v = Null and s = 0 and t = "Num 0" and ?s1.0 = 1
          and condition = "\<lambda>n::nat. (Normal (Num 0), Suc n)",
          THEN conjunct2, THEN conjunct2, THEN conjunct1]
        while_checks_condition_only[where v = Null and s = 0 and t = "Num 1" and ?s1.0 = 1
          and condition = "\<lambda>n::nat. (Normal (Num 1), Suc n)",
          THEN conjunct2, THEN conjunct2, THEN conjunct2, THEN conjunct1]
  by simp


section \<open>The accumulator of \<^verbatim>\<open>reduce\<close>\<close>

text \<open>
  Claim C10 says that on every step of every \<^verbatim>\<open>reduce\<close>, those inside \<^verbatim>\<open>map\<close> and
  \<^verbatim>\<open>filter\<close> included, the accumulator is replaced rather than mutated in place.
  In \<^verbatim>\<open>map([5], x => x * 2)\<close> the one step of the inner \<^verbatim>\<open>reduce\<close> starts with the
  accumulator \<open>Ref 1\<close>, the empty result array, and ends with the same reference
  \<open>Ref 1\<close> while the array at address 1 has become \<^verbatim>\<open>[10]\<close>: it was mutated in
  place. The step of \<^verbatim>\<open>filter\<close> does the same.
\<close>

theorem accumulator_mutated_counterexample:
  "scratch_map 0 (pure1 times2) ([Arr [Num 5]], ())
     = Some (Normal (Ref 1), ([Arr [Num 5], Arr [Num 10]], ())) \<and>
   reduce_fn (Fn (map_aggregator (pure1 times2))) (Num 5) ([Arr [Num 5], Arr []], (Ref 1, ()))
     = (Normal Undefined, ([Arr [Num 5], Arr [Num 10]], (Ref 1, ()))) \<and>
   [Arr [Num 5], Arr [Num 10]] ! 1 \<noteq> [Arr [Num 5], Arr []] ! 1 \<and>
   reduce_fn (Fn (filter_aggregator (pure1 is_even))) (Num 4) ([Arr [Num 4], Arr []], (Ref 1, ()))
     = (Normal Undefined, ([Arr [Num 4], Arr [Num 4]], (Ref 1, ())))"
proof -
  have "scratch_map 0 (pure1 times2) ([Arr [Num 5]], ())
          = Some (Normal (Ref 1), ([Arr [Num 5], Arr [Num 10]], ()))"
    using map_pure[of 0 "[Arr [Num 5]]" times2 "()"] by (simp add: arr_of_def times2_def)
  then show ?thesis
    by (simp add: reduce_fn_def map_aggregator_def filter_aggregator_def pure1_def push_def
                  times2_def is_even_def)
qed

text \<open>
  Claim C10, amended. On every step of every \<^verbatim>\<open>reduce\<close>, the variable \<^verbatim>\<open>memo\<close> is
  set to what the aggregator returned, and \<^verbatim>\<open>reduce\<close> itself changes nothing else:
  the heap and user state after the step are those the aggregator left (when the
  aggregator throws, \<^verbatim>\<open>memo\<close> keeps its value). The aggregators of \<^verbatim>\<open>map\<close> and
  \<^verbatim>\<open>filter\<close> return the very reference they were given and append to that array in
  place.
\<close>

theorem reduce_assigns_memo:
  "(call2 aggregator memo x (h, u) = (Normal v, (h', u')) \<longrightarrow>
      reduce_fn aggregator x (h, (memo, u)) = (Normal Undefined, (h', (v, u')))) \<and>
   (call2 aggregator memo x (h, u) = (Throw e, (h', u')) \<longrightarrow>
      reduce_fn aggregator x (h, (memo, u)) = (Throw e, (h', (memo, u')))) \<and>
   (r < length h \<and> h ! r = Arr ys \<longrightarrow>
      map_aggregator (pure1 f) (Ref r) x (h, u) = (Normal (Ref r), (h[r := Arr (ys @ [f x])], u)) \<and>
      filter_aggregator (pure1 p) (Ref r) x (h, u) =
        (Normal (Ref r), (if truthy (p x) then h[r := Arr (ys @ [x])] else h, u)))"
  by (simp add: reduce_fn_def map_aggregator_def filter_aggregator_def pure1_def push_array)

theorem reduce_assigns_memo_witness:
  "reduce_fn (pure2 plus) (Num 2) ([], (Num 1, ())) = (Normal Undefined, ([], (Num 3, ()))) \<and>
   reduce_fn (NonFn Null) (Num 2) ([], (Num 1, ())) = (Throw TypeErrorObject, ([], (Num 1, ()))) \<and>
   map_aggregator (pure1 times2) (Ref 0) (Num 5) ([Arr [Num 1]], ())
     = (Normal (Ref 0), ([Arr [Num 1, Num 10]], ())) \<and>
   filter_aggregator (pure1 is_even) (Ref 0) (Num 5) ([Arr [Num 1]], ())
     = (Normal (Ref 0), ([Arr [Num 1]], ()))"
  using reduce_assigns_memo[where aggregator = "pure2 plus" and memo = "Num 1" and x = "Num 2"
          and h = "[]" and u = "()" and v = "Num 3" and h' = "[]" and u' = "()", THEN conjunct1]
        reduce_assigns_memo[where aggregator = "NonFn Null" and memo = "Num 1" and x = "Num 2"
          and h = "[]" and u = "()" and e = TypeErrorObject and h' = "[]" and u' = "()",
          THEN conjunct2, THEN conjunct1]
        reduce_assigns_memo[where x = "Num 5" and h = "[Arr [Num 1]]" and u = "()" and r = 0
          and ys = "[Num 1]" and f = times2 and p = is_even, THEN conjunct2, THEN conjunct2]
  by (simp add: pure2_def plus_def times2_def is_even_def)


end
